theory Spec2Isabelle
  imports Main
begin

unbundle bit_operations_syntax

section \<open>The linear auction-steps encoder\<close>

text \<open>
  The embedded function is \<^verbatim>\<open>encodeLinearAuctionSteps\<close> of the auction-creation page
  (src/unnamed/part_007, lines 10-91). Its argument is a JavaScript \<^verbatim>\<open>bigint\<close>, an
  unbounded integer, modelled as \<^typ>\<open>int\<close>. Each \<^verbatim>\<open>throw new Error(...)\<close> is a value
  of the type \<open>error\<close>, and the calls of \<^verbatim>\<open>console.log\<close>, the only effect of the
  function, append to an explicit console that is passed in and returned.
\<close>

subsection \<open>BigInt arithmetic and strings\<close>

text \<open>
  \<^verbatim>\<open>a / b\<close> on BigInt truncates towards zero and \<^verbatim>\<open>a % b\<close> takes the sign of the
  dividend. (A zero divisor raises a RangeError; the function divides only after it has
  checked \<^verbatim>\<open>durationInBlocks > 0n\<close>.)
\<close>

definition bigint_div :: "int \<Rightarrow> int \<Rightarrow> int" where
  "bigint_div a b = sgn a * sgn b * (\<bar>a\<bar> div \<bar>b\<bar>)"

definition bigint_rem :: "int \<Rightarrow> int \<Rightarrow> int" where
  "bigint_rem a b = a - b * bigint_div a b"

text \<open>
  \<^verbatim>\<open>BigInt.prototype.toString(radix)\<close>: the digits of the magnitude, most significant
  first, lower-case, no leading zero, with a minus sign for a negative value.
\<close>

definition digitChar :: "int \<Rightarrow> char" where
  "digitChar k = ''0123456789abcdef'' ! nat k"

function digits :: "int \<Rightarrow> int \<Rightarrow> string" where
  "digits radix n =
     (if radix < 2 \<or> n < radix then [digitChar n]
      else digits radix (n div radix) @ [digitChar (n mod radix)])"
  by pat_completeness auto
termination
proof (relation "measure (\<lambda>(radix, n). nat n)")
  show "wf (measure (\<lambda>(radix, n). nat n))" by simp
next
  fix radix n :: int
  assume "\<not> (radix < 2 \<or> n < radix)"
  then have r: "2 \<le> radix" and n: "radix \<le> n" by simp_all
  from r n have "n div radix < n"
    by (intro int_div_less_self) simp_all
  moreover from r n have "0 < n" by simp
  ultimately show "((radix, n div radix), (radix, n)) \<in> measure (\<lambda>(radix, n). nat n)"
    by simp
qed

definition bigint_toString :: "int \<Rightarrow> int \<Rightarrow> string" where
  "bigint_toString radix n =
     (if n < 0 then CHR ''-'' # digits radix (- n) else digits radix n)"

text \<open>\<^verbatim>\<open>s.padStart(targetLength, c)\<close> with a one-character pad string.\<close>

definition padStart :: "nat \<Rightarrow> char \<Rightarrow> string \<Rightarrow> string" where
  "padStart targetLength c s =
     (if targetLength \<le> length s then s
      else replicate (targetLength - length s) c @ s)"

subsection \<open>Constants, errors, steps and the console\<close>

definition MPS_TOTAL :: int where
  "MPS_TOTAL = 10000000"

definition MAX_MPS :: int where
  "MAX_MPS = push_bit 24 1 - 1"

definition MAX_BLOCK_DELTA :: int where
  "MAX_BLOCK_DELTA = push_bit 40 1 - 1"

text \<open>
  The four \<^verbatim>\<open>throw\<close> statements, in the order of the source, under the names the
  specification gives them:
  \<^item> \<open>InvalidDuration\<close>: \<^verbatim>\<open>'Duration must be positive'\<close> (line 25);
  \<^item> \<open>DurationTooLarge\<close>: \<^verbatim>\<open>'Duration ... exceeds maximum block delta (...)'\<close> (line 28);
  \<^item> \<open>RateOverflow\<close>: \<^verbatim>\<open>'MPS value exceeds 24-bit maximum. Use a longer duration.'\<close>
    (line 37);
  \<^item> \<open>InternalInvariantViolation\<close>: \<^verbatim>\<open>'MPS total mismatch: ...'\<close> (line 70).
\<close>

datatype error = InvalidDuration | DurationTooLarge | RateOverflow | InternalInvariantViolation

record step =
  mps :: int
  blockDelta :: int

datatype log_value =
    LStr string
  | LBool bool
  | LObj "(string \<times> string) list"
  | LArr "(string \<times> string) list list"

type_synonym console = "log_value list list"

definition console_log :: "log_value list \<Rightarrow> console \<Rightarrow> console" where
  "console_log args con = con @ [args]"

subsection \<open>The function\<close>

text \<open>Lines 46-61: the one or two steps.\<close>

definition buildSteps :: "int \<Rightarrow> int \<Rightarrow> int \<Rightarrow> step list" where
  "buildSteps baseMps remainder durationInBlocks =
     (if remainder = 0 then [\<lparr>mps = baseMps, blockDelta = durationInBlocks\<rparr>]
      else
        let blocksAtHigherMps = remainder;
            blocksAtBaseMps = durationInBlocks - remainder
        in (if blocksAtBaseMps > 0 then [\<lparr>mps = baseMps, blockDelta = blocksAtBaseMps\<rparr>]
            else [])
           @ [\<lparr>mps = baseMps + 1, blockDelta = blocksAtHigherMps\<rparr>])"

text \<open>Lines 64-67: the loop that adds up \<^verbatim>\<open>step.mps * step.blockDelta\<close>.\<close>

fun totalMpsLoop :: "int \<Rightarrow> step list \<Rightarrow> int" where
  "totalMpsLoop totalMps [] = totalMps"
| "totalMpsLoop totalMps (s # steps) = totalMpsLoop (totalMps + mps s * blockDelta s) steps"

text \<open>Lines 82-87: the loop that appends sixteen hexadecimal digits per step.\<close>

definition packedValue :: "step \<Rightarrow> int" where
  "packedValue s = push_bit 40 (mps s) OR blockDelta s"

fun encodeLoop :: "string \<Rightarrow> step list \<Rightarrow> string" where
  "encodeLoop encoded [] = encoded"
| "encodeLoop encoded (s # steps) =
     encodeLoop (encoded @ padStart 16 (CHR ''0'') (bigint_toString 16 (packedValue s))) steps"

definition stepRow :: "step \<Rightarrow> (string \<times> string) list" where
  "stepRow s =
     [(''mps'', bigint_toString 10 (mps s)),
      (''blockDelta'', bigint_toString 10 (blockDelta s)),
      (''product'', bigint_toString 10 (mps s * blockDelta s))]"

definition encodeLinearAuctionSteps :: "int \<Rightarrow> console \<Rightarrow> (error + string) \<times> console" where
  "encodeLinearAuctionSteps durationInBlocks con =
     (if durationInBlocks \<le> 0 then (Inl InvalidDuration, con)
      else if durationInBlocks > MAX_BLOCK_DELTA then (Inl DurationTooLarge, con)
      else
        let baseMps = bigint_div MPS_TOTAL durationInBlocks;
            remainder = bigint_rem MPS_TOTAL durationInBlocks
        in
        if baseMps > MAX_MPS \<or> baseMps + 1 > MAX_MPS then (Inl RateOverflow, con)
        else
          let con1 = console_log
                [LStr ''Step calculation:'',
                 LObj [(''durationInBlocks'', bigint_toString 10 durationInBlocks),
                       (''baseMps'', bigint_toString 10 baseMps),
                       (''remainder'', bigint_toString 10 remainder)]] con;
              steps = buildSteps baseMps remainder durationInBlocks;
              totalMps = totalMpsLoop 0 steps
          in
          if totalMps \<noteq> MPS_TOTAL then (Inl InternalInvariantViolation, con1)
          else
            let con2 = console_log [LStr ''Steps created:'', LArr (map stepRow steps)] con1;
                con3 = console_log
                  [LStr ''Total MPS:'', LStr (bigint_toString 10 totalMps),
                   LStr ''Target:'', LStr (bigint_toString 10 MPS_TOTAL),
                   LStr ''Match:'', LBool (totalMps = MPS_TOTAL)] con2;
                encoded = encodeLoop ''0x'' steps;
                con4 = console_log [LStr ''Encoded steps:'', LStr encoded] con3
            in (Inr encoded, con4))"

text \<open>
  The value of the variable \<^verbatim>\<open>steps\<close> after line 61, for an argument that has passed
  the checks of lines 24-38.
\<close>

definition constructedSteps :: "int \<Rightarrow> step list" where
  "constructedSteps durationInBlocks =
     buildSteps (bigint_div MPS_TOTAL durationInBlocks)
       (bigint_rem MPS_TOTAL durationInBlocks) durationInBlocks"

subsection \<open>The wire format in the words of the specification\<close>

text \<open>
  The definitions of this subsection are not code of the repository: the contract that
  reads the encoded steps is external. They follow the specification's description of an
  EncodedSchedule (one 8-byte big-endian record per step, the rate in the upper 24 bits
  and the duration in the lower 40 bits) and are what the function's output is compared
  with.
\<close>

text \<open>The \<open>k\<close> low-order bytes of \<open>v\<close>, most significant byte first.\<close>

fun be_bytes :: "nat \<Rightarrow> int \<Rightarrow> int list" where
  "be_bytes 0 v = []"
| "be_bytes (Suc k) v = be_bytes k (v div 256) @ [v mod 256]"

definition record_bytes :: "step \<Rightarrow> int list" where
  "record_bytes s = be_bytes 8 (push_bit 40 (mps s) OR blockDelta s)"

definition schedule_bytes :: "step list \<Rightarrow> int list" where
  "schedule_bytes steps = concat (map record_bytes steps)"

text \<open>A byte sequence written as a \<^verbatim>\<open>0x\<close> string, two digits per byte.\<close>

definition byte_hex :: "int \<Rightarrow> string" where
  "byte_hex b = [digitChar (b div 16), digitChar (b mod 16)]"

definition hex_of_bytes :: "int list \<Rightarrow> string" where
  "hex_of_bytes bs = ''0x'' @ concat (map byte_hex bs)"

text \<open>The way back: from the string to bytes, to 8-byte records, to steps.\<close>

definition hexval :: "char \<Rightarrow> int option" where
  "hexval c = map_of
     [(CHR ''0'', 0), (CHR ''1'', 1), (CHR ''2'', 2), (CHR ''3'', 3),
      (CHR ''4'', 4), (CHR ''5'', 5), (CHR ''6'', 6), (CHR ''7'', 7),
      (CHR ''8'', 8), (CHR ''9'', 9), (CHR ''a'', 10), (CHR ''b'', 11),
      (CHR ''c'', 12), (CHR ''d'', 13), (CHR ''e'', 14), (CHR ''f'', 15)] c"

fun hex_pairs :: "string \<Rightarrow> int list option" where
  "hex_pairs [] = Some []"
| "hex_pairs [c] = None"
| "hex_pairs (hi # lo # rest) =
     (case hexval hi of
        None \<Rightarrow> None
      | Some h \<Rightarrow>
          (case hexval lo of
             None \<Rightarrow> None
           | Some l \<Rightarrow> map_option ((#) (16 * h + l)) (hex_pairs rest)))"

definition bytes_of_hex :: "string \<Rightarrow> int list option" where
  "bytes_of_hex s =
     (case s of
        c0 # cx # rest \<Rightarrow>
          if c0 = CHR ''0'' \<and> cx = CHR ''x'' then hex_pairs rest else None
      | _ \<Rightarrow> None)"

function records :: "int list \<Rightarrow> int list list option" where
  "records bs =
     (if bs = [] then Some []
      else if length bs < 8 then None
      else map_option ((#) (take 8 bs)) (records (drop 8 bs)))"
  by pat_completeness auto
termination
  by (relation "measure length") auto

definition be_value :: "int list \<Rightarrow> int" where
  "be_value bs = foldl (\<lambda>acc b. acc * 256 + b) 0 bs"

definition decodeStep :: "int list \<Rightarrow> step" where
  "decodeStep bs =
     (let v = be_value bs in \<lparr>mps = drop_bit 40 v, blockDelta = take_bit 40 v\<rparr>)"

definition decodeSchedule :: "string \<Rightarrow> step list option" where
  "decodeSchedule s =
     (case bytes_of_hex s of
        None \<Rightarrow> None
      | Some bs \<Rightarrow> map_option (map decodeStep) (records bs))"

text \<open>The two sums of the Schedule invariant.\<close>

definition totalUnits :: "step list \<Rightarrow> int" where
  "totalUnits steps = (\<Sum>s\<leftarrow>steps. mps s * blockDelta s)"

definition totalDuration :: "step list \<Rightarrow> int" where
  "totalDuration steps = (\<Sum>s\<leftarrow>steps. blockDelta s)"

text \<open>
  A device of the proofs: the \<open>k\<close> low-order hexadecimal digits of \<open>n\<close>, most
  significant first.
\<close>

fun fixedHex :: "nat \<Rightarrow> int \<Rightarrow> string" where
  "fixedHex 0 n = []"
| "fixedHex (Suc k) n = fixedHex k (n div 16) @ [digitChar (n mod 16)]"

section \<open>Arithmetic of the schedule\<close>

declare digits.simps [simp del]

declare records.simps [simp del]

lemma MAX_MPS_value: "MAX_MPS = 16777215"
  by (simp add: MAX_MPS_def)

lemma MAX_BLOCK_DELTA_value: "MAX_BLOCK_DELTA = 1099511627775"
  by (simp add: MAX_BLOCK_DELTA_def)

lemma bigint_div_pos: "0 \<le> a \<Longrightarrow> 0 < b \<Longrightarrow> bigint_div a b = a div b"
  by (cases "a = 0") (simp_all add: bigint_div_def)

lemma bigint_rem_pos: "0 \<le> a \<Longrightarrow> 0 < b \<Longrightarrow> bigint_rem a b = a mod b"
  by (simp add: bigint_rem_def bigint_div_pos minus_mult_div_eq_mod)

lemma baseMps_bounds:
  assumes "0 < d"
  shows "0 \<le> bigint_div MPS_TOTAL d" and "bigint_div MPS_TOTAL d \<le> 10000000"
proof -
  have eq: "bigint_div MPS_TOTAL d = 10000000 div d"
    using assms by (simp add: bigint_div_pos MPS_TOTAL_def)
  show "0 \<le> bigint_div MPS_TOTAL d"
    using assms by (simp add: eq pos_imp_zdiv_nonneg_iff)
  have "(10000000::int) div d \<le> 10000000 div 1"
    using assms by (intro zdiv_mono2) simp_all
  then show "bigint_div MPS_TOTAL d \<le> 10000000"
    by (simp add: eq)
qed

lemma remainder_bounds:
  assumes "0 < d"
  shows "0 \<le> bigint_rem MPS_TOTAL d" and "bigint_rem MPS_TOTAL d < d"
  using assms by (simp_all add: bigint_rem_pos MPS_TOTAL_def)

lemma constructedSteps_shape:
  assumes "0 < d"
  shows "constructedSteps d =
     (if 10000000 mod d = 0 then [\<lparr>mps = 10000000 div d, blockDelta = d\<rparr>]
      else [\<lparr>mps = 10000000 div d, blockDelta = d - 10000000 mod d\<rparr>,
            \<lparr>mps = 10000000 div d + 1, blockDelta = 10000000 mod d\<rparr>])"
proof -
  have "(10000000::int) mod d < d"
    using assms by simp
  then show ?thesis
    using assms
    by (simp add: constructedSteps_def buildSteps_def bigint_div_pos bigint_rem_pos
        MPS_TOTAL_def Let_def)
qed

lemma totalMpsLoop_eq: "totalMpsLoop acc steps = acc + totalUnits steps"
  by (induction steps arbitrary: acc) (simp_all add: totalUnits_def)

lemma totalUnits_constructedSteps:
  assumes "0 < d"
  shows "totalUnits (constructedSteps d) = 10000000"
proof -
  define q r where "q = (10000000::int) div d" and "r = (10000000::int) mod d"
  have split: "q * d + r = 10000000"
    by (simp add: q_def r_def)
  have "q * (d - r) + (q + 1) * r = q * d + r"
    by (simp add: algebra_simps)
  with split show ?thesis
    using assms
    by (simp add: constructedSteps_shape totalUnits_def flip: q_def r_def)
qed

lemma totalDuration_constructedSteps:
  assumes "0 < d"
  shows "totalDuration (constructedSteps d) = d"
  using assms by (simp add: constructedSteps_shape totalDuration_def)

lemma encode_valid:
  assumes "0 < d" and "d \<le> MAX_BLOCK_DELTA"
  shows "fst (encodeLinearAuctionSteps d con) = Inr (encodeLoop ''0x'' (constructedSteps d))"
proof -
  have rate: "\<not> (bigint_div MPS_TOTAL d > MAX_MPS \<or> bigint_div MPS_TOTAL d + 1 > MAX_MPS)"
    using baseMps_bounds(2) [OF assms(1)] by (simp add: MAX_MPS_value)
  have total: "totalMpsLoop 0 (constructedSteps d) = MPS_TOTAL"
    using assms(1) by (simp add: totalMpsLoop_eq totalUnits_constructedSteps MPS_TOTAL_def)
  show ?thesis
    using assms rate total
    by (simp add: encodeLinearAuctionSteps_def Let_def constructedSteps_def)
qed

section \<open>Hexadecimal digits\<close>

lemma encodeLoop_eq:
  "encodeLoop acc steps =
     acc @ concat (map (\<lambda>s. padStart 16 (CHR ''0'') (bigint_toString 16 (packedValue s))) steps)"
  by (induction steps arbitrary: acc) simp_all

lemma digitChar_0: "digitChar 0 = CHR ''0''"
  by (simp add: digitChar_def)

lemma fixedHex_zero: "fixedHex k 0 = replicate k (CHR ''0'')"
  by (induction k) (simp_all add: digitChar_0 replicate_append_same)

lemma padStart_snoc: "padStart (Suc m) c (xs @ [x]) = padStart m c xs @ [x]"
  by (simp add: padStart_def)

lemma padStart_one_digit:
  assumes "0 \<le> n" and "n < 16"
  shows "padStart (Suc k) (CHR ''0'') (digits 16 n) = fixedHex (Suc k) n"
proof -
  from assms have "n div 16 = 0" and "n mod 16 = n"
    by simp_all
  then have "fixedHex (Suc k) n = fixedHex k 0 @ [digitChar n]"
    by simp
  also have "\<dots> = replicate k (CHR ''0'') @ [digitChar n]"
    by (simp only: fixedHex_zero)
  finally show ?thesis
    using assms by (simp add: digits.simps [of 16 n] padStart_def)
qed

lemma padStart_more_digits:
  assumes ih: "padStart (Suc k) (CHR ''0'') (digits 16 (n div 16)) = fixedHex (Suc k) (n div 16)"
    and big: "\<not> n < 16"
  shows "padStart (Suc (Suc k)) (CHR ''0'') (digits 16 n) = fixedHex (Suc (Suc k)) n"
proof -
  from big have "digits 16 n = digits 16 (n div 16) @ [digitChar (n mod 16)]"
    by (subst digits.simps) simp
  then have "padStart (Suc (Suc k)) (CHR ''0'') (digits 16 n)
      = padStart (Suc k) (CHR ''0'') (digits 16 (n div 16)) @ [digitChar (n mod 16)]"
    by (simp only: padStart_snoc)
  also have "\<dots> = fixedHex (Suc k) (n div 16) @ [digitChar (n mod 16)]"
    by (simp only: ih)
  also have "\<dots> = fixedHex (Suc (Suc k)) n"
    by (simp only: fixedHex.simps)
  finally show ?thesis .
qed

lemma padStart_digits16:
  "0 \<le> n \<Longrightarrow> n < 16 ^ Suc k \<Longrightarrow> padStart (Suc k) (CHR ''0'') (digits 16 n) = fixedHex (Suc k) n"
proof (induction k arbitrary: n)
  case 0
  then show ?case
    by (intro padStart_one_digit) simp_all
next
  case (Suc k)
  show ?case
  proof (cases "n < 16")
    case True
    with Suc.prems(1) show ?thesis
      by (intro padStart_one_digit)
  next
    case False
    from Suc.prems(2) have "n < 16 * 16 ^ Suc k"
      by simp
    with Suc.prems(1) have "0 \<le> n div 16" and "n div 16 < 16 ^ Suc k"
      by linarith+
    then have "padStart (Suc k) (CHR ''0'') (digits 16 (n div 16)) = fixedHex (Suc k) (n div 16)"
      by (rule Suc.IH)
    then show ?thesis
      using False by (rule padStart_more_digits)
  qed
qed

lemma padStart_toString16:
  assumes "0 \<le> v" and "v < 2 ^ 64"
  shows "padStart 16 (CHR ''0'') (bigint_toString 16 v) = fixedHex 16 v"
proof -
  have "v < 16 ^ Suc 15"
    using assms(2) by simp
  with assms(1) have "padStart (Suc 15) (CHR ''0'') (digits 16 v) = fixedHex (Suc 15) v"
    by (rule padStart_digits16)
  moreover have "Suc 15 = 16"
    by simp
  moreover have "bigint_toString 16 v = digits 16 v"
    using assms(1) by (simp add: bigint_toString_def)
  ultimately show ?thesis
    by (simp only:)
qed

lemma div_16_16: "(v::int) div 16 div 16 = v div 256"
  using zdiv_zmult2_eq [of 16 v 16] by simp

lemma mod_256_mod_16: "(v::int) mod 256 mod 16 = v mod 16"
  by (simp add: mod_mod_cancel)

lemma mod_256_div_16: "(v::int) mod 256 div 16 = v div 16 mod 16"
proof -
  have "v mod (16 * 16) = 16 * (v div 16 mod 16) + v mod 16"
    by (rule zmod_zmult2_eq) simp
  then have "v mod 256 div 16 = (16 * (v div 16 mod 16) + v mod 16) div 16"
    by simp
  also have "\<dots> = v div 16 mod 16"
    by simp
  finally show ?thesis .
qed

lemma fixedHex_bytes: "fixedHex (2 * k) v = concat (map byte_hex (be_bytes k v))"
proof (induction k arbitrary: v)
  case 0
  show ?case by simp
next
  case (Suc k)
  have low: "[digitChar (v div 16 mod 16), digitChar (v mod 16)] = byte_hex (v mod 256)"
    by (simp only: byte_hex_def mod_256_div_16 mod_256_mod_16)
  have "2 * Suc k = Suc (Suc (2 * k))"
    by simp
  then have "fixedHex (2 * Suc k) v = fixedHex (Suc (Suc (2 * k))) v"
    by (simp only:)
  also have "\<dots> = fixedHex (2 * k) (v div 16 div 16)
      @ [digitChar (v div 16 mod 16), digitChar (v mod 16)]"
    by (simp only: fixedHex.simps append_assoc append.simps)
  also have "\<dots> = concat (map byte_hex (be_bytes k (v div 256))) @ byte_hex (v mod 256)"
    by (simp only: Suc.IH div_16_16 low)
  also have "\<dots> = concat (map byte_hex (be_bytes (Suc k) v))"
    by simp
  finally show ?case .
qed

lemma padStart_toString16_bytes:
  assumes "0 \<le> v" and "v < 2 ^ 64"
  shows "padStart 16 (CHR ''0'') (bigint_toString 16 v) = concat (map byte_hex (be_bytes 8 v))"
proof -
  have "(16::nat) = 2 * 8"
    by simp
  then have "fixedHex 16 v = fixedHex (2 * 8) v"
    by (simp only:)
  then show ?thesis
    using assms by (simp only: padStart_toString16 fixedHex_bytes)
qed

section \<open>The encoded bytes and the way back\<close>

lemma packedValue_bounds:
  assumes "0 \<le> mps s" and "mps s < 2 ^ 24" and "0 \<le> blockDelta s" and "blockDelta s < 2 ^ 40"
  shows "0 \<le> packedValue s" and "packedValue s < 2 ^ 64"
proof -
  show "0 \<le> packedValue s"
    using assms(1,3) by (simp add: packedValue_def)
  have "mps s * 2 ^ 40 < 2 ^ 24 * 2 ^ 40"
    using assms(2) by simp
  then have "push_bit 40 (mps s) < 2 ^ 64"
    by (simp add: push_bit_eq_mult)
  moreover have "blockDelta s < 2 ^ 64"
    using assms(4) by simp
  moreover have "0 \<le> push_bit 40 (mps s)"
    using assms(1) by simp
  ultimately show "packedValue s < 2 ^ 64"
    unfolding packedValue_def by (intro OR_upper)
qed

lemma packedValue_fields:
  assumes "0 \<le> blockDelta s" and "blockDelta s < 2 ^ 40"
  shows "drop_bit 40 (packedValue s) = mps s" and "take_bit 40 (packedValue s) = blockDelta s"
proof -
  have low: "take_bit 40 (blockDelta s) = blockDelta s"
    using assms by (simp add: take_bit_int_eq_self)
  have high: "drop_bit 40 (blockDelta s) = 0"
    using assms by (simp add: drop_bit_eq_div)
  show "drop_bit 40 (packedValue s) = mps s"
    by (simp add: packedValue_def high drop_bit_push_bit)
  show "take_bit 40 (packedValue s) = blockDelta s"
    by (simp add: packedValue_def low take_bit_push_bit)
qed

lemma length_be_bytes: "length (be_bytes k v) = k"
  by (induction k arbitrary: v) simp_all

lemma be_bytes_range: "b \<in> set (be_bytes k v) \<Longrightarrow> 0 \<le> b \<and> b < 256"
  by (induction k arbitrary: v) auto

lemma be_value_snoc: "be_value (bs @ [b]) = be_value bs * 256 + b"
  by (simp add: be_value_def)

lemma be_value_be_bytes: "be_value (be_bytes k v) = v mod 256 ^ k"
proof (induction k arbitrary: v)
  case 0
  show ?case by (simp add: be_value_def)
next
  case (Suc k)
  have "v mod (256 * 256 ^ k) = 256 * (v div 256 mod 256 ^ k) + v mod 256"
    by (rule zmod_zmult2_eq) simp
  then show ?case
    by (simp add: be_value_snoc Suc.IH)
qed

lemma hexval_digitChar:
  assumes "0 \<le> k" and "k < 16"
  shows "hexval (digitChar k) = Some k"
proof -
  from assms have "k = 0 \<or> k = 1 \<or> k = 2 \<or> k = 3 \<or> k = 4 \<or> k = 5 \<or> k = 6 \<or> k = 7
      \<or> k = 8 \<or> k = 9 \<or> k = 10 \<or> k = 11 \<or> k = 12 \<or> k = 13 \<or> k = 14 \<or> k = 15"
    by presburger
  then show ?thesis
    by (elim disjE) (simp_all add: hexval_def digitChar_def)
qed

lemma hex_pairs_byte_hex:
  assumes "\<forall>b\<in>set bs. 0 \<le> b \<and> b < 256"
  shows "hex_pairs (concat (map byte_hex bs)) = Some bs"
  using assms
proof (induction bs)
  case Nil
  show ?case by simp
next
  case (Cons b bs)
  then have b: "0 \<le> b" "b < 256"
    by simp_all
  then have hi: "hexval (digitChar (b div 16)) = Some (b div 16)"
    by (intro hexval_digitChar) simp_all
  have lo: "hexval (digitChar (b mod 16)) = Some (b mod 16)"
    by (intro hexval_digitChar) simp_all
  have bh: "byte_hex b = [digitChar (b div 16), digitChar (b mod 16)]"
    by (simp add: byte_hex_def)
  from Cons have "hex_pairs (concat (map byte_hex bs)) = Some bs"
    by simp
  then show ?case
    by (simp add: bh hi lo)
qed

lemma bytes_of_hex_hex_of_bytes:
  assumes "\<forall>b\<in>set bs. 0 \<le> b \<and> b < 256"
  shows "bytes_of_hex (hex_of_bytes bs) = Some bs"
  using hex_pairs_byte_hex [OF assms] by (simp add: bytes_of_hex_def hex_of_bytes_def)

lemma records_concat:
  assumes "\<forall>r\<in>set rs. length r = 8"
  shows "records (concat rs) = Some rs"
  using assms
proof (induction rs)
  case Nil
  show ?case by (simp add: records.simps [of "[]"])
next
  case (Cons r rs)
  then have len: "length r = 8" and rest: "records (concat rs) = Some rs"
    by simp_all
  from len have "r \<noteq> []"
    by auto
  with len rest show ?case
    by (subst records.simps) simp
qed

lemma decodeStep_record_bytes:
  assumes "0 \<le> mps s" and "mps s < 2 ^ 24" and "0 \<le> blockDelta s" and "blockDelta s < 2 ^ 40"
  shows "decodeStep (record_bytes s) = s"
proof -
  have "be_value (record_bytes s) = packedValue s mod 256 ^ 8"
    by (simp only: record_bytes_def be_value_be_bytes packedValue_def)
  also have "\<dots> = packedValue s"
    using packedValue_bounds [OF assms] by simp
  finally show ?thesis
    using packedValue_fields [OF assms(3,4)] by (simp add: decodeStep_def)
qed

lemma record_hex:
  assumes "0 \<le> mps s" and "mps s < 2 ^ 24" and "0 \<le> blockDelta s" and "blockDelta s < 2 ^ 40"
  shows "padStart 16 (CHR ''0'') (bigint_toString 16 (packedValue s))
    = concat (map byte_hex (record_bytes s))"
  using packedValue_bounds [OF assms]
  by (simp only: padStart_toString16_bytes record_bytes_def packedValue_def)

lemma encodeLoop_hex_of_bytes:
  assumes "\<forall>s\<in>set steps. 0 \<le> mps s \<and> mps s < 2 ^ 24 \<and> 0 \<le> blockDelta s \<and> blockDelta s < 2 ^ 40"
  shows "encodeLoop ''0x'' steps = hex_of_bytes (schedule_bytes steps)"
proof -
  have "concat (map (\<lambda>s. padStart 16 (CHR ''0'') (bigint_toString 16 (packedValue s))) steps)
      = concat (map byte_hex (schedule_bytes steps))"
    using assms
  proof (induction steps)
    case Nil
    show ?case by (simp add: schedule_bytes_def)
  next
    case (Cons s steps)
    then have "padStart 16 (CHR ''0'') (bigint_toString 16 (packedValue s))
        = concat (map byte_hex (record_bytes s))"
      by (intro record_hex) simp_all
    with Cons show ?case
      by (simp add: schedule_bytes_def)
  qed
  then show ?thesis
    by (simp only: encodeLoop_eq hex_of_bytes_def)
qed

lemma schedule_bytes_range: "b \<in> set (schedule_bytes steps) \<Longrightarrow> 0 \<le> b \<and> b < 256"
  by (auto simp: schedule_bytes_def record_bytes_def dest: be_bytes_range)

lemma length_schedule_bytes: "length (schedule_bytes steps) = 8 * length steps"
  by (induction steps) (simp_all add: schedule_bytes_def record_bytes_def length_be_bytes)

lemma decodeSchedule_hex_of_bytes:
  assumes "\<forall>s\<in>set steps. 0 \<le> mps s \<and> mps s < 2 ^ 24 \<and> 0 \<le> blockDelta s \<and> blockDelta s < 2 ^ 40"
  shows "decodeSchedule (hex_of_bytes (schedule_bytes steps)) = Some steps"
proof -
  have bytes: "bytes_of_hex (hex_of_bytes (schedule_bytes steps)) = Some (schedule_bytes steps)"
    by (rule bytes_of_hex_hex_of_bytes) (simp add: schedule_bytes_range)
  have recs: "records (schedule_bytes steps) = Some (map record_bytes steps)"
    unfolding schedule_bytes_def
    by (rule records_concat) (auto simp: record_bytes_def length_be_bytes)
  have "map decodeStep (map record_bytes steps) = steps"
    using assms by (induction steps) (simp_all add: decodeStep_record_bytes)
  with bytes recs show ?thesis
    by (simp add: decodeSchedule_def)
qed

lemma constructedSteps_fields:
  assumes "0 < d" and "d \<le> MAX_BLOCK_DELTA" and "s \<in> set (constructedSteps d)"
  shows "0 \<le> mps s" and "mps s \<le> 10000001" and "1 \<le> blockDelta s" and "blockDelta s \<le> d"
proof -
  define q r where "q = (10000000::int) div d" and "r = (10000000::int) mod d"
  have q: "0 \<le> q" "q \<le> 10000000"
    using baseMps_bounds [OF assms(1)] assms(1)
    by (simp_all add: bigint_div_pos MPS_TOTAL_def q_def)
  have r: "0 \<le> r" "r < d"
    using assms(1) by (simp_all add: r_def)
  from assms(3) have cases:
    "s = \<lparr>mps = q, blockDelta = d\<rparr> \<and> r = 0
     \<or> s = \<lparr>mps = q, blockDelta = d - r\<rparr> \<and> r \<noteq> 0
     \<or> s = \<lparr>mps = q + 1, blockDelta = r\<rparr> \<and> r \<noteq> 0"
    unfolding q_def r_def
    by (auto simp: constructedSteps_shape [OF assms(1)] split: if_splits)
  from cases q r assms(1) show "0 \<le> mps s" by auto
  from cases q r assms(1) show "mps s \<le> 10000001" by auto
  from cases q r assms(1) show "1 \<le> blockDelta s" by auto
  from cases q r assms(1) show "blockDelta s \<le> d" by auto
qed

lemma constructedSteps_fit:
  assumes "0 < d" and "d \<le> MAX_BLOCK_DELTA"
  shows "\<forall>s\<in>set (constructedSteps d).
     0 \<le> mps s \<and> mps s < 2 ^ 24 \<and> 0 \<le> blockDelta s \<and> blockDelta s < 2 ^ 40"
proof
  fix s
  assume s: "s \<in> set (constructedSteps d)"
  from constructedSteps_fields [OF assms s] assms(2)
  show "0 \<le> mps s \<and> mps s < 2 ^ 24 \<and> 0 \<le> blockDelta s \<and> blockDelta s < 2 ^ 40"
    by (simp add: MAX_BLOCK_DELTA_value)
qed

section \<open>The three outcomes of the function\<close>

lemma encode_nonpositive:
  "d \<le> 0 \<Longrightarrow> encodeLinearAuctionSteps d con = (Inl InvalidDuration, con)"
  by (simp add: encodeLinearAuctionSteps_def)

lemma encode_too_large:
  "0 < d \<Longrightarrow> MAX_BLOCK_DELTA < d \<Longrightarrow> encodeLinearAuctionSteps d con = (Inl DurationTooLarge, con)"
  by (simp add: encodeLinearAuctionSteps_def)

lemma encode_valid_console:
  assumes "0 < d" and "d \<le> MAX_BLOCK_DELTA"
  shows "snd (encodeLinearAuctionSteps d con) = con @ snd (encodeLinearAuctionSteps d [])"
proof -
  have rate: "\<not> (bigint_div MPS_TOTAL d > MAX_MPS \<or> bigint_div MPS_TOTAL d + 1 > MAX_MPS)"
    using baseMps_bounds(2) [OF assms(1)] by (simp add: MAX_MPS_value)
  have total: "totalMpsLoop 0 (constructedSteps d) = MPS_TOTAL"
    using assms(1) by (simp add: totalMpsLoop_eq totalUnits_constructedSteps MPS_TOTAL_def)
  show ?thesis
    using assms rate total
    by (simp add: encodeLinearAuctionSteps_def Let_def constructedSteps_def console_log_def)
qed

lemma encode_Inr_range:
  assumes "fst (encodeLinearAuctionSteps d con) = Inr encoded"
  shows "0 < d" and "d \<le> MAX_BLOCK_DELTA"
proof -
  show "0 < d"
  proof (rule ccontr)
    assume "\<not> 0 < d"
    then have "fst (encodeLinearAuctionSteps d con) = Inl InvalidDuration"
      by (simp add: encode_nonpositive)
    with assms show False by simp
  qed
  then show "d \<le> MAX_BLOCK_DELTA"
  proof (rule contrapos_pp)
    assume "\<not> d \<le> MAX_BLOCK_DELTA"
    with \<open>0 < d\<close> have "fst (encodeLinearAuctionSteps d con) = Inl DurationTooLarge"
      by (simp add: encode_too_large)
    with assms show "\<not> 0 < d" by simp
  qed
qed

lemma encode_Inr_encoded:
  assumes "fst (encodeLinearAuctionSteps d con) = Inr encoded"
  shows "encoded = encodeLoop ''0x'' (constructedSteps d)"
  using encode_valid [OF encode_Inr_range [OF assms], of con] assms by simp

section \<open>The claims\<close>

text \<open>
  C1. For every requested duration between 1 and 1,099,511,627,775 on which the function
  succeeds, decoding its output (8-byte big-endian records, the rate in the upper 24 bits
  and the duration in the lower 40 bits) gives back exactly the constructed steps, and
  these satisfy: the sum of rate times duration is 10,000,000 and the sum of the
  durations is the requested duration.
\<close>

theorem C1_decode_recovers_schedule:
  assumes "1 \<le> d" and "d \<le> 1099511627775"
    and "fst (encodeLinearAuctionSteps d con) = Inr encoded"
  shows "\<exists>steps. decodeSchedule encoded = Some steps
    \<and> steps = constructedSteps d
    \<and> totalUnits steps = 10000000
    \<and> totalDuration steps = d"
proof -
  from assms(1,2) have pos: "0 < d" and le: "d \<le> MAX_BLOCK_DELTA"
    by (simp_all add: MAX_BLOCK_DELTA_value)
  have "encoded = encodeLoop ''0x'' (constructedSteps d)"
    using assms(3) by (rule encode_Inr_encoded)
  also have "\<dots> = hex_of_bytes (schedule_bytes (constructedSteps d))"
    using constructedSteps_fit [OF pos le] by (rule encodeLoop_hex_of_bytes)
  finally have "decodeSchedule encoded = Some (constructedSteps d)"
    using constructedSteps_fit [OF pos le] by (simp only: decodeSchedule_hex_of_bytes)
  with totalUnits_constructedSteps [OF pos] totalDuration_constructedSteps [OF pos]
  show ?thesis
    by simp
qed

theorem C1_decode_recovers_schedule_witness:
  "(1::int) \<le> 3 \<and> (3::int) \<le> 1099511627775
   \<and> fst (encodeLinearAuctionSteps 3 []) = Inr ''0x32dcd5000000000232dcd60000000001''
   \<and> (\<exists>steps. decodeSchedule ''0x32dcd5000000000232dcd60000000001'' = Some steps
        \<and> steps = [\<lparr>mps = 3333333, blockDelta = 2\<rparr>, \<lparr>mps = 3333334, blockDelta = 1\<rparr>]
        \<and> totalUnits steps = 10000000
        \<and> totalDuration steps = 3)"
proof -
  have a: "(1::int) \<le> 3" and b: "(3::int) \<le> 1099511627775"
    by simp_all
  have c: "fst (encodeLinearAuctionSteps 3 []) = Inr ''0x32dcd5000000000232dcd60000000001''"
    by code_simp
  have s: "constructedSteps 3 = [\<lparr>mps = 3333333, blockDelta = 2\<rparr>, \<lparr>mps = 3333334, blockDelta = 1\<rparr>]"
    by (simp add: constructedSteps_shape)
  from C1_decode_recovers_schedule [OF a b c] s c show ?thesis
    by simp
qed

text \<open>
  C2. For a requested duration \<open>d\<close> between 1 and 1,099,511,627,775, with
  \<open>baseRate = 10,000,000 div d\<close> and \<open>remainder = 10,000,000 mod d\<close>, the function
  constructs the single step (baseRate, d) when the remainder is zero, and otherwise
  exactly the two steps (baseRate, d - remainder) and (baseRate + 1, remainder), in this
  order; what it returns is the encoding of these steps. For \<open>d = 3\<close> the steps are
  (3,333,333, 2) and (3,333,334, 1).
\<close>

theorem C2_constructed_schedule:
  assumes "1 \<le> d" and "d \<le> 1099511627775"
  shows "bigint_div MPS_TOTAL d = 10000000 div d
    \<and> bigint_rem MPS_TOTAL d = 10000000 mod d
    \<and> constructedSteps d =
      (if 10000000 mod d = 0 then [\<lparr>mps = 10000000 div d, blockDelta = d\<rparr>]
       else [\<lparr>mps = 10000000 div d, blockDelta = d - 10000000 mod d\<rparr>,
             \<lparr>mps = 10000000 div d + 1, blockDelta = 10000000 mod d\<rparr>])
    \<and> fst (encodeLinearAuctionSteps d con) = Inr (encodeLoop ''0x'' (constructedSteps d))
    \<and> constructedSteps 3 = [\<lparr>mps = 3333333, blockDelta = 2\<rparr>, \<lparr>mps = 3333334, blockDelta = 1\<rparr>]"
proof -
  from assms(1) have pos: "0 < d"
    by simp
  from pos have quotient: "bigint_div MPS_TOTAL d = 10000000 div d"
    by (simp add: bigint_div_pos MPS_TOTAL_def)
  from pos have rest: "bigint_rem MPS_TOTAL d = 10000000 mod d"
    by (simp add: bigint_rem_pos MPS_TOTAL_def)
  from pos assms(2) have result:
    "fst (encodeLinearAuctionSteps d con) = Inr (encodeLoop ''0x'' (constructedSteps d))"
    by (intro encode_valid) (simp_all add: MAX_BLOCK_DELTA_value)
  have three: "constructedSteps 3 = [\<lparr>mps = 3333333, blockDelta = 2\<rparr>, \<lparr>mps = 3333334, blockDelta = 1\<rparr>]"
    by (simp add: constructedSteps_shape)
  from quotient rest constructedSteps_shape [OF pos] result three show ?thesis
    by (simp only: simp_thms)
qed

theorem C2_constructed_schedule_witness:
  "(1::int) \<le> 7200 \<and> (7200::int) \<le> 1099511627775
   \<and> bigint_div MPS_TOTAL 7200 = 1388 \<and> bigint_rem MPS_TOTAL 7200 = 6400
   \<and> constructedSteps 7200 = [\<lparr>mps = 1388, blockDelta = 800\<rparr>, \<lparr>mps = 1389, blockDelta = 6400\<rparr>]
   \<and> fst (encodeLinearAuctionSteps 7200 []) = Inr ''0x00056c000000032000056d0000001900''"
proof -
  have a: "(1::int) \<le> 7200" and b: "(7200::int) \<le> 1099511627775"
    by simp_all
  have enc: "encodeLoop ''0x'' [\<lparr>mps = 1388, blockDelta = 800\<rparr>, \<lparr>mps = 1389, blockDelta = 6400\<rparr>]
      = ''0x00056c000000032000056d0000001900''"
    by code_simp
  from C2_constructed_schedule [OF a b, of "[]"] enc show ?thesis
    by simp
qed

text \<open>
  C3. Whenever the function succeeds, its output is the \<^verbatim>\<open>0x\<close> string of a byte sequence
  that is the concatenation, in step order, of one 8-byte big-endian record per step; the
  64-bit value of a record is \<open>(rate << 40) | duration\<close>, with the rate in bits 63..40 and
  the duration in bits 39..0; and the sequence has 8 bytes per step: 8 bytes for one
  step, 16 for two.
\<close>

theorem C3_output_layout:
  assumes "fst (encodeLinearAuctionSteps d con) = Inr encoded"
  shows "encoded = hex_of_bytes (schedule_bytes (constructedSteps d))
    \<and> bytes_of_hex encoded = Some (schedule_bytes (constructedSteps d))
    \<and> schedule_bytes (constructedSteps d)
        = concat (map (\<lambda>s. be_bytes 8 (push_bit 40 (mps s) OR blockDelta s)) (constructedSteps d))
    \<and> length (schedule_bytes (constructedSteps d)) = 8 * length (constructedSteps d)
    \<and> (length (constructedSteps d) = 1 \<and> length (schedule_bytes (constructedSteps d)) = 8
        \<or> length (constructedSteps d) = 2 \<and> length (schedule_bytes (constructedSteps d)) = 16)
    \<and> (\<forall>s\<in>set (constructedSteps d).
          0 \<le> push_bit 40 (mps s) OR blockDelta s
          \<and> push_bit 40 (mps s) OR blockDelta s < 2 ^ 64
          \<and> be_value (be_bytes 8 (push_bit 40 (mps s) OR blockDelta s))
              = push_bit 40 (mps s) OR blockDelta s
          \<and> drop_bit 40 (push_bit 40 (mps s) OR blockDelta s) = mps s
          \<and> take_bit 40 (push_bit 40 (mps s) OR blockDelta s) = blockDelta s
          \<and> mps s < 2 ^ 24 \<and> blockDelta s < 2 ^ 40)"
proof -
  note range = encode_Inr_range [OF assms]
  note fit = constructedSteps_fit [OF range]
  have "encoded = encodeLoop ''0x'' (constructedSteps d)"
    using assms by (rule encode_Inr_encoded)
  also have "\<dots> = hex_of_bytes (schedule_bytes (constructedSteps d))"
    using fit by (rule encodeLoop_hex_of_bytes)
  finally have hex: "encoded = hex_of_bytes (schedule_bytes (constructedSteps d))" .
  have bytes: "bytes_of_hex encoded = Some (schedule_bytes (constructedSteps d))"
    unfolding hex by (rule bytes_of_hex_hex_of_bytes) (simp add: schedule_bytes_range)
  have cat: "schedule_bytes (constructedSteps d)
      = concat (map (\<lambda>s. be_bytes 8 (push_bit 40 (mps s) OR blockDelta s)) (constructedSteps d))"
    by (simp only: schedule_bytes_def record_bytes_def [abs_def])
  have len: "length (schedule_bytes (constructedSteps d)) = 8 * length (constructedSteps d)"
    by (rule length_schedule_bytes)
  have "length (constructedSteps d) = 1 \<or> length (constructedSteps d) = 2"
    using range(1) by (simp add: constructedSteps_shape)
  with len have count:
    "length (constructedSteps d) = 1 \<and> length (schedule_bytes (constructedSteps d)) = 8
     \<or> length (constructedSteps d) = 2 \<and> length (schedule_bytes (constructedSteps d)) = 16"
    by auto
  have recs: "\<forall>s\<in>set (constructedSteps d).
          0 \<le> push_bit 40 (mps s) OR blockDelta s
          \<and> push_bit 40 (mps s) OR blockDelta s < 2 ^ 64
          \<and> be_value (be_bytes 8 (push_bit 40 (mps s) OR blockDelta s))
              = push_bit 40 (mps s) OR blockDelta s
          \<and> drop_bit 40 (push_bit 40 (mps s) OR blockDelta s) = mps s
          \<and> take_bit 40 (push_bit 40 (mps s) OR blockDelta s) = blockDelta s
          \<and> mps s < 2 ^ 24 \<and> blockDelta s < 2 ^ 40"
  proof
    fix s
    assume "s \<in> set (constructedSteps d)"
    with fit have f: "0 \<le> mps s" "mps s < 2 ^ 24" "0 \<le> blockDelta s" "blockDelta s < 2 ^ 40"
      by simp_all
    note b = packedValue_bounds [OF f, unfolded packedValue_def]
    note p = packedValue_fields [OF f(3,4), unfolded packedValue_def]
    have "be_value (be_bytes 8 (push_bit 40 (mps s) OR blockDelta s))
        = (push_bit 40 (mps s) OR blockDelta s) mod 256 ^ 8"
      by (rule be_value_be_bytes)
    also have "\<dots> = push_bit 40 (mps s) OR blockDelta s"
      using b by simp
    finally show "0 \<le> push_bit 40 (mps s) OR blockDelta s
          \<and> push_bit 40 (mps s) OR blockDelta s < 2 ^ 64
          \<and> be_value (be_bytes 8 (push_bit 40 (mps s) OR blockDelta s))
              = push_bit 40 (mps s) OR blockDelta s
          \<and> drop_bit 40 (push_bit 40 (mps s) OR blockDelta s) = mps s
          \<and> take_bit 40 (push_bit 40 (mps s) OR blockDelta s) = blockDelta s
          \<and> mps s < 2 ^ 24 \<and> blockDelta s < 2 ^ 40"
      using b p f by (simp only: simp_thms)
  qed
  from hex bytes cat len count recs show ?thesis
    by (intro conjI)
qed

theorem C3_output_layout_witness:
  "fst (encodeLinearAuctionSteps 10000000 []) = Inr ''0x0000010000989680''
   \<and> ''0x0000010000989680'' = hex_of_bytes (schedule_bytes (constructedSteps 10000000))
   \<and> bytes_of_hex ''0x0000010000989680'' = Some [0, 0, 1, 0, 0, 152, 150, 128]
   \<and> schedule_bytes (constructedSteps 10000000) = [0, 0, 1, 0, 0, 152, 150, 128]
   \<and> constructedSteps 10000000 = [\<lparr>mps = 1, blockDelta = 10000000\<rparr>]"
proof -
  have c: "fst (encodeLinearAuctionSteps 10000000 []) = Inr ''0x0000010000989680''"
    by code_simp
  have s: "constructedSteps 10000000 = [\<lparr>mps = 1, blockDelta = 10000000\<rparr>]"
    by (simp add: constructedSteps_shape)
  have b: "schedule_bytes [\<lparr>mps = 1, blockDelta = 10000000\<rparr>] = [0, 0, 1, 0, 0, 152, 150, 128]"
    by code_simp
  from C3_output_layout [OF c] have
    "''0x0000010000989680'' = hex_of_bytes (schedule_bytes (constructedSteps 10000000))"
    and "bytes_of_hex ''0x0000010000989680'' = Some (schedule_bytes (constructedSteps 10000000))"
    by (rule conjunct1, rule conjunct2 [THEN conjunct1])
  with c s b show ?thesis
    by (simp only: simp_thms)
qed

text \<open>
  C4. The function fails with InvalidDuration if and only if the requested duration is
  zero or negative, and then it does nothing else: the console is left as it was. In
  particular it fails so for 0 and for -5.
\<close>

theorem C4_invalid_duration:
  "(fst (encodeLinearAuctionSteps d con) = Inl InvalidDuration \<longleftrightarrow> d \<le> 0)
   \<and> (d \<le> 0 \<longrightarrow> snd (encodeLinearAuctionSteps d con) = con)
   \<and> encodeLinearAuctionSteps 0 con = (Inl InvalidDuration, con)
   \<and> encodeLinearAuctionSteps (- 5) con = (Inl InvalidDuration, con)"
proof (cases "d \<le> 0")
  case True
  then show ?thesis
    by (simp add: encode_nonpositive)
next
  case False
  then have pos: "0 < d"
    by simp
  have "fst (encodeLinearAuctionSteps d con) \<noteq> Inl InvalidDuration"
  proof (cases "d \<le> MAX_BLOCK_DELTA")
    case True
    with pos show ?thesis by (simp add: encode_valid)
  next
    case False
    with pos show ?thesis by (simp add: encode_too_large)
  qed
  with False show ?thesis
    by (simp add: encode_nonpositive)
qed

theorem C4_invalid_duration_witness:
  "fst (encodeLinearAuctionSteps (- 7) [[LStr ''kept'']]) = Inl InvalidDuration
   \<and> snd (encodeLinearAuctionSteps (- 7) [[LStr ''kept'']]) = [[LStr ''kept'']]
   \<and> fst (encodeLinearAuctionSteps 1 []) \<noteq> Inl InvalidDuration"
  using C4_invalid_duration [of "- 7" "[[LStr ''kept'']]"] C4_invalid_duration [of 1 "[]"]
  by simp

text \<open>
  C5. For a positive requested duration, the function fails with DurationTooLarge if and
  only if the duration exceeds 1,099,511,627,775; at 1,099,511,627,775 it succeeds, and
  at 1,099,511,627,776 it fails with DurationTooLarge.
\<close>

theorem C5_duration_too_large:
  assumes "0 < d"
  shows "(fst (encodeLinearAuctionSteps d con) = Inl DurationTooLarge \<longleftrightarrow> 1099511627775 < d)
    \<and> fst (encodeLinearAuctionSteps 1099511627775 con) = Inr ''0x000000ffff67697f0000010000989680''
    \<and> fst (encodeLinearAuctionSteps 1099511627776 con) = Inl DurationTooLarge"
proof -
  have general: "fst (encodeLinearAuctionSteps d con) = Inl DurationTooLarge \<longleftrightarrow> 1099511627775 < d"
  proof (cases "d \<le> MAX_BLOCK_DELTA")
    case True
    with assms show ?thesis by (simp add: encode_valid MAX_BLOCK_DELTA_value)
  next
    case False
    with assms show ?thesis by (simp add: encode_too_large MAX_BLOCK_DELTA_value)
  qed
  have "encodeLoop ''0x'' (constructedSteps 1099511627775) = ''0x000000ffff67697f0000010000989680''"
    by code_simp
  then have boundary:
    "fst (encodeLinearAuctionSteps 1099511627775 con) = Inr ''0x000000ffff67697f0000010000989680''"
    by (simp add: encode_valid MAX_BLOCK_DELTA_value)
  have beyond: "fst (encodeLinearAuctionSteps 1099511627776 con) = Inl DurationTooLarge"
    by (simp add: encode_too_large MAX_BLOCK_DELTA_value)
  from general boundary beyond show ?thesis
    by (simp only: simp_thms)
qed

theorem C5_duration_too_large_witness:
  "(0::int) < 2000000000000 \<and> fst (encodeLinearAuctionSteps 2000000000000 []) = Inl DurationTooLarge
   \<and> (0::int) < 5 \<and> fst (encodeLinearAuctionSteps 5 []) \<noteq> Inl DurationTooLarge"
proof -
  have a: "(0::int) < 2000000000000" and b: "(0::int) < 5"
    by simp_all
  from C5_duration_too_large [OF a, of "[]"] C5_duration_too_large [OF b, of "[]"]
  show ?thesis by simp
qed

text \<open>
  C6. Whenever the function succeeds, every step of the constructed schedule has a rate
  between 0 and 16,777,215 and a duration between 1 and 1,099,511,627,775.
\<close>

theorem C6_field_ranges:
  assumes "fst (encodeLinearAuctionSteps d con) = Inr encoded"
  shows "\<forall>s\<in>set (constructedSteps d).
     0 \<le> mps s \<and> mps s \<le> 16777215 \<and> 1 \<le> blockDelta s \<and> blockDelta s \<le> 1099511627775"
proof
  fix s
  assume s: "s \<in> set (constructedSteps d)"
  note range = encode_Inr_range [OF assms]
  from constructedSteps_fields [OF range s] range(2)
  show "0 \<le> mps s \<and> mps s \<le> 16777215 \<and> 1 \<le> blockDelta s \<and> blockDelta s \<le> 1099511627775"
    by (simp add: MAX_BLOCK_DELTA_value)
qed

theorem C6_field_ranges_witness:
  "fst (encodeLinearAuctionSteps 3 []) = Inr ''0x32dcd5000000000232dcd60000000001''
   \<and> constructedSteps 3 ! 1 = \<lparr>mps = 3333334, blockDelta = 1\<rparr>
   \<and> 0 \<le> mps (constructedSteps 3 ! 1) \<and> mps (constructedSteps 3 ! 1) \<le> 16777215
   \<and> 1 \<le> blockDelta (constructedSteps 3 ! 1)
   \<and> blockDelta (constructedSteps 3 ! 1) \<le> 1099511627775"
proof -
  have c: "fst (encodeLinearAuctionSteps 3 []) = Inr ''0x32dcd5000000000232dcd60000000001''"
    by code_simp
  have s: "constructedSteps 3 = [\<lparr>mps = 3333333, blockDelta = 2\<rparr>, \<lparr>mps = 3333334, blockDelta = 1\<rparr>]"
    by (simp add: constructedSteps_shape)
  from C6_field_ranges [OF c] s c show ?thesis
    by simp
qed

text \<open>
  C7. The cross-check of lines 63-71 never fails: for every argument that passes the
  validations before it, the total recomputed by the loop over the constructed steps is
  exactly 10,000,000, and the function never returns InternalInvariantViolation.
\<close>

theorem C7_cross_check_never_fails:
  "(0 < d \<and> d \<le> MAX_BLOCK_DELTA \<longrightarrow> totalMpsLoop 0 (constructedSteps d) = 10000000)
   \<and> fst (encodeLinearAuctionSteps d con) \<noteq> Inl InternalInvariantViolation"
proof -
  have total: "totalMpsLoop 0 (constructedSteps d) = 10000000" if "0 < d"
    using that by (simp add: totalMpsLoop_eq totalUnits_constructedSteps)
  have never: "fst (encodeLinearAuctionSteps d con) \<noteq> Inl InternalInvariantViolation"
  proof (cases "d \<le> 0")
    case True
    then show ?thesis by (simp add: encode_nonpositive)
  next
    case False
    show ?thesis
    proof (cases "d \<le> MAX_BLOCK_DELTA")
      case True
      with False show ?thesis by (simp add: encode_valid)
    next
      case False
      with \<open>\<not> d \<le> 0\<close> show ?thesis by (simp add: encode_too_large)
    qed
  qed
  from total never show ?thesis
    by simp
qed

theorem C7_cross_check_never_fails_witness:
  "(0::int) < 7 \<and> 7 \<le> MAX_BLOCK_DELTA \<and> totalMpsLoop 0 (constructedSteps 7) = 10000000
   \<and> fst (encodeLinearAuctionSteps 7 []) \<noteq> Inl InternalInvariantViolation"
  using C7_cross_check_never_fails [of 7 "[]"] by (simp add: MAX_BLOCK_DELTA_value)

text \<open>
  C8. With the total fixed at 10,000,000 the rate-overflow check is dead: for every
  requested duration between 1 and 1,099,511,627,775 the base rate plus one is at most
  16,777,215, the function never returns RateOverflow, and it succeeds for exactly the
  durations of that range.
\<close>

theorem C8_rate_overflow_unreachable:
  "(1 \<le> d \<and> d \<le> 1099511627775 \<longrightarrow> bigint_div MPS_TOTAL d + 1 \<le> 16777215)
   \<and> fst (encodeLinearAuctionSteps d con) \<noteq> Inl RateOverflow
   \<and> ((\<exists>encoded. fst (encodeLinearAuctionSteps d con) = Inr encoded)
        \<longleftrightarrow> 1 \<le> d \<and> d \<le> 1099511627775)"
proof -
  have rate: "bigint_div MPS_TOTAL d + 1 \<le> 16777215" if "1 \<le> d"
  proof -
    from that have "0 < d" by simp
    from baseMps_bounds(2) [OF this] show ?thesis by simp
  qed
  consider (nonpositive) "d \<le> 0" | (valid) "0 < d" "d \<le> MAX_BLOCK_DELTA"
    | (large) "0 < d" "MAX_BLOCK_DELTA < d"
    by linarith
  then have "fst (encodeLinearAuctionSteps d con) \<noteq> Inl RateOverflow
    \<and> ((\<exists>encoded. fst (encodeLinearAuctionSteps d con) = Inr encoded)
        \<longleftrightarrow> 1 \<le> d \<and> d \<le> 1099511627775)"
  proof cases
    case nonpositive
    then show ?thesis by (simp add: encode_nonpositive)
  next
    case valid
    then show ?thesis by (simp add: encode_valid MAX_BLOCK_DELTA_value)
  next
    case large
    then show ?thesis by (simp add: encode_too_large MAX_BLOCK_DELTA_value)
  qed
  with rate show ?thesis
    by simp
qed

theorem C8_rate_overflow_unreachable_witness:
  "(1::int) \<le> 1 \<and> (1::int) \<le> 1099511627775 \<and> bigint_div MPS_TOTAL 1 + 1 \<le> 16777215
   \<and> fst (encodeLinearAuctionSteps 1 []) \<noteq> Inl RateOverflow
   \<and> (\<exists>encoded. fst (encodeLinearAuctionSteps 1 []) = Inr encoded)"
  using C8_rate_overflow_unreachable [of 1 "[]"] by simp

text \<open>
  C9. The function is deterministic: what it returns depends on the requested duration
  only, not on the state of the console it logs to, and what it adds to the console
  depends on the requested duration only.
\<close>

theorem C9_deterministic:
  "fst (encodeLinearAuctionSteps d con1) = fst (encodeLinearAuctionSteps d con2)
   \<and> snd (encodeLinearAuctionSteps d con1) = con1 @ snd (encodeLinearAuctionSteps d [])"
proof -
  consider (nonpositive) "d \<le> 0" | (valid) "0 < d" "d \<le> MAX_BLOCK_DELTA"
    | (large) "0 < d" "MAX_BLOCK_DELTA < d"
    by linarith
  then show ?thesis
  proof cases
    case nonpositive
    then show ?thesis by (simp add: encode_nonpositive)
  next
    case valid
    from encode_valid_console [OF valid, of con1] valid show ?thesis
      by (simp add: encode_valid)
  next
    case large
    then show ?thesis by (simp add: encode_too_large)
  qed
qed

theorem C9_deterministic_witness:
  "fst (encodeLinearAuctionSteps 3 [[LStr ''earlier output'']]) = fst (encodeLinearAuctionSteps 3 [])
   \<and> fst (encodeLinearAuctionSteps 3 []) = Inr ''0x32dcd5000000000232dcd60000000001''"
proof -
  have "fst (encodeLinearAuctionSteps 3 []) = Inr ''0x32dcd5000000000232dcd60000000001''"
    by code_simp
  with C9_deterministic [of 3 "[[LStr ''earlier output'']]" "[]"] show ?thesis
    by simp
qed

text \<open>
  C10. The base rate is antitone in the requested duration: for valid durations
  \<open>d1 \<le> d2\<close>, the base rate computed for \<open>d2\<close> is at most the one computed for \<open>d1\<close>.
\<close>

theorem C10_baseMps_antitone:
  assumes "1 \<le> d1" and "d1 \<le> d2" and "d2 \<le> 1099511627775"
  shows "bigint_div MPS_TOTAL d2 \<le> bigint_div MPS_TOTAL d1"
proof -
  from assms have pos: "0 < d1" "0 < d2"
    by simp_all
  have "(10000000::int) div d2 \<le> 10000000 div d1"
    using pos(1) assms(2) by (intro zdiv_mono2) simp_all
  with pos show ?thesis
    by (simp add: bigint_div_pos MPS_TOTAL_def)
qed

theorem C10_baseMps_antitone_witness:
  "(1::int) \<le> 3 \<and> (3::int) \<le> 7200 \<and> (7200::int) \<le> 1099511627775
   \<and> bigint_div MPS_TOTAL 7200 \<le> bigint_div MPS_TOTAL 3
   \<and> bigint_div MPS_TOTAL 7200 = 1388 \<and> bigint_div MPS_TOTAL 3 = 3333333"
proof -
  have a: "(1::int) \<le> 3" and b: "(3::int) \<le> 7200" and c: "(7200::int) \<le> 1099511627775"
    by simp_all
  have "bigint_div MPS_TOTAL 7200 = 1388" and "bigint_div MPS_TOTAL 3 = 3333333"
    by (simp_all add: bigint_div_def MPS_TOTAL_def)
  with C10_baseMps_antitone [OF a b c] show ?thesis
    by simp
qed

end
